theory Spec2Isabelle
  imports Main "HOL-Library.FSet" "HOL-Library.Sublist"
begin

section \<open>Python strings\<close>

text \<open>
  A Python \<open>str\<close> is modelled as a \<open>string\<close>: one \<open>char\<close> stands for one code point,
  so the model covers the code points 0..255. \<open>len\<close> is \<open>length\<close>.
\<close>

text \<open>\<open>str.isspace\<close> on one code point, as \<open>str.strip()\<close> without argument uses it.\<close>

definition isspace :: "char \<Rightarrow> bool" where
  "isspace c =
     (let n = (of_char c :: nat)
      in (9 \<le> n \<and> n \<le> 13) \<or> (28 \<le> n \<and> n \<le> 32) \<or> n = 133 \<or> n = 160)"

text \<open>\<open>s.strip()\<close>: leading and trailing whitespace removed.\<close>

definition strip :: "string \<Rightarrow> string" where
  "strip s = rev (dropWhile isspace (rev (dropWhile isspace s)))"

text \<open>\<open>s.lower()\<close>, one code point at a time.\<close>

definition lower_char :: "char \<Rightarrow> char" where
  "lower_char c =
     (let n = (of_char c :: nat)
      in if (65 \<le> n \<and> n \<le> 90) \<or> (192 \<le> n \<and> n \<le> 222 \<and> n \<noteq> 215)
         then char_of (n + 32) else c)"

definition lower :: "string \<Rightarrow> string" where
  "lower s = map lower_char s"

text \<open>\<open>sub in s\<close> for two strings: \<open>sub\<close> occurs in \<open>s\<close> as a contiguous run.\<close>

fun str_in :: "string \<Rightarrow> string \<Rightarrow> bool" where
  "str_in sub [] = (sub = [])"
| "str_in sub (c # cs) = (prefix sub (c # cs) \<or> str_in sub cs)"

text \<open>\<open>str(n)\<close> for a length: the decimal digits of \<open>n\<close>.\<close>

function str_nat :: "nat \<Rightarrow> string" where
  "str_nat n =
     (if n < 10 then [''0123456789'' ! n]
      else str_nat (n div 10) @ [''0123456789'' ! (n mod 10)])"
  by pat_completeness auto
termination
  by (relation "measure (\<lambda>n. n)") auto

declare str_nat.simps [simp del]

section \<open>The collaborators of the crawler\<close>

text \<open>
  What \<open>urllib.parse.urlparse\<close> returns, as far as the crawler reads it (\<open>scheme\<close> and
  \<open>netloc\<close>), with the remaining components of the split.
\<close>

record ParseResult =
  scheme :: string
  netloc :: string
  path :: string
  query :: string
  fragment :: string

text \<open>
  The parsed document, as the crawler reads a \<open>BeautifulSoup\<close> object:
  \<^item> \<open>title_tag\<close>: \<open>soup.find('title')\<close>, \<open>None\<close> when there is no title element, else the
    element's \<open>.text\<close>;
  \<^item> \<open>meta_desc\<close>: \<open>soup.find('meta', attrs={'name': 'description'})\<close>, \<open>None\<close> when there
    is no such element, else its \<open>content\<close> attribute (\<open>None\<close> when the attribute is absent);
  \<^item> \<open>headings i\<close>: \<open>soup.find_all('h{i}')\<close>, the text of each element found;
  \<^item> \<open>a_hrefs\<close>: \<open>soup.find_all('a', href=True)\<close>, the \<open>href\<close> of each anchor, in
    document order;
  \<^item> \<open>imgs\<close>: \<open>soup.find_all('img')\<close>, the \<open>src\<close> and \<open>alt\<close> attributes of each image.
\<close>

record soup =
  title_tag :: "string option"
  meta_desc :: "string option option"
  headings :: "nat \<Rightarrow> string list"
  a_hrefs :: "string list"
  imgs :: "(string option \<times> string option) list"

section \<open>The page analyser\<close>

text \<open>
  The values of the \<open>seo_issues\<close> dictionary: the URL is a string, every category a list of
  strings. The dictionary keeps insertion order, so it is an association list.
\<close>

datatype py_value = Str string | StrList "string list"

fun truthy :: "py_value \<Rightarrow> bool" where
  "truthy (Str s) = (s \<noteq> [])"
| "truthy (StrList l) = (l \<noteq> [])"

type_synonym page_issues = "(string \<times> py_value) list"

text \<open>Lines 63 to 67 of \<open>main.py\<close>.\<close>

definition title_issues :: "soup \<Rightarrow> string list" where
  "title_issues sp =
     (case title_tag sp of
        None \<Rightarrow> [''Missing Title Tag'']
      | Some text \<Rightarrow>
          if strip text = [] then [''Missing Title Tag'']
          else if length text < 10 \<or> length text > 60
          then [''Title Tag Length Issue (Current: '' @ str_nat (length text) @ '' chars)'']
          else [])"

text \<open>Lines 69 to 73: \<open>meta_desc.get('content', '')\<close> is the empty string without the attribute.\<close>

definition meta_description_issues :: "soup \<Rightarrow> string list" where
  "meta_description_issues sp =
     (case meta_desc sp of
        None \<Rightarrow> [''Missing Meta Description'']
      | Some attr \<Rightarrow>
          (let content = (case attr of None \<Rightarrow> [] | Some c \<Rightarrow> c)
           in if strip content = [] then [''Missing Meta Description'']
              else if length content < 50 \<or> length content > 160
              then [''Meta Description Length Issue (Current: '' @ str_nat (length content)
                     @ '' chars)'']
              else []))"

text \<open>Lines 75 to 83: the H1 check, then the loop \<open>for i in range(1, 6)\<close>.\<close>

definition hierarchy_issue :: "nat \<Rightarrow> string" where
  "hierarchy_issue j = ''Potential Heading Hierarchy Issue (Missing H'' @ str_nat j @ '')''"

definition heading_structure_issues :: "soup \<Rightarrow> string list" where
  "heading_structure_issues sp =
     (if headings sp 1 = [] then [''No H1 Tag Found'']
      else if length (headings sp 1) > 1 then [''Multiple H1 Tags'']
      else [])
     @ concat (map (\<lambda>i. if headings sp i \<noteq> [] \<and> headings sp (i + 1) = []
                         then [hierarchy_issue (i + 1)] else [])
                   [1 ..< 6])"

text \<open>
  Line 86: the list comprehension over the anchors. \<open>urlparse\<close> raises \<open>ValueError\<close> on some
  strings; the exception leaves the comprehension, so the result is \<open>None\<close>.
\<close>

fun external_links ::
  "(string \<Rightarrow> ParseResult option) \<Rightarrow> string \<Rightarrow> string list \<Rightarrow> string list option" where
  "external_links urlparse base [] = Some []"
| "external_links urlparse base (href # rest) =
     (case urlparse href of
        None \<Rightarrow> None
      | Some p \<Rightarrow>
          (case external_links urlparse base rest of
             None \<Rightarrow> None
           | Some r \<Rightarrow> Some (if netloc p \<noteq> base then href # r else r)))"

definition link_issues :: "string list \<Rightarrow> string list" where
  "link_issues ext =
     (if length ext > 10
      then [''High Number of External Links ('' @ str_nat (length ext) @ '')'']
      else [])"

text \<open>Lines 90 to 93: \<open>not img.get('alt')\<close> holds for a missing and for an empty attribute.\<close>

definition images_without_alt :: "(string option \<times> string option) list \<Rightarrow> string list" where
  "images_without_alt images =
     map (\<lambda>img. case fst img of None \<Rightarrow> ''Unknown'' | Some s \<Rightarrow> s)
       (filter (\<lambda>img. snd img = None \<or> snd img = Some []) images)"

definition image_issues :: "soup \<Rightarrow> string list" where
  "image_issues sp =
     (let without = images_without_alt (imgs sp)
      in if without \<noteq> [] then [str_nat (length without) @ '' Images Missing Alt Text'']
         else [])"

text \<open>
  \<open>SEOCrawler._get_page_seo_issues\<close>: the dictionary of line 54 filled in, then filtered
  at line 95 by the truth value of each entry. \<open>None\<close> is an exception leaving the method.
\<close>

definition get_page_seo_issues ::
  "(string \<Rightarrow> ParseResult option) \<Rightarrow> string \<Rightarrow> string \<Rightarrow> soup \<Rightarrow> page_issues option" where
  "get_page_seo_issues urlparse base url sp =
     (case external_links urlparse base (a_hrefs sp) of
        None \<Rightarrow> None
      | Some ext \<Rightarrow>
          Some (filter (\<lambda>kv. truthy (snd kv))
            [(''URL'', Str url),
             (''Title Issues'', StrList (title_issues sp)),
             (''Meta Description Issues'', StrList (meta_description_issues sp)),
             (''Heading Structure Issues'', StrList (heading_structure_issues sp)),
             (''Link Issues'', StrList (link_issues ext)),
             (''Image SEO Issues'', StrList (image_issues sp))]))"

text \<open>The issue strings a record holds under a category key: none when the key is absent.\<close>

definition issues_of :: "page_issues \<Rightarrow> string \<Rightarrow> string list" where
  "issues_of r k = (case map_of r k of Some (StrList l) \<Rightarrow> l | _ \<Rightarrow> [])"

section \<open>The crawler\<close>

text \<open>
  What \<open>session.get(current_url, timeout=10)\<close> gives: a \<open>requests.RequestException\<close>, or a
  response with its \<open>Content-Type\<close> header (\<open>None\<close> when the header is absent) and its text.
\<close>

datatype fetch_result = RequestException | Response "string option" string

text \<open>
  The code the crawler calls and does not define: \<open>urllib.parse.urlparse\<close> and
  \<open>urllib.parse.urljoin\<close> (\<open>None\<close> when they raise \<open>ValueError\<close>), the site behind
  \<open>session.get\<close>, and the HTML parser. Every definition below takes them as a parameter.
\<close>

record env =
  urlparse :: "string \<Rightarrow> ParseResult option"
  urljoin :: "string \<Rightarrow> string \<Rightarrow> string option"
  session_get :: "string \<Rightarrow> fetch_result"
  BeautifulSoup :: "string \<Rightarrow> soup"

text \<open>
  The fields of \<open>SEOCrawler\<close> that the crawl reads or writes. \<open>crawl_complete\<close> and
  \<open>crawl_error\<close>, which only the progress display reads, are left out. \<open>fetched\<close> is not a
  field of the class: it records the argument of every call of \<open>session.get\<close>, in order, so
  that properties of the fetches can be stated.
\<close>

record SEOCrawler =
  domain :: string
  base_domain :: string
  max_depth :: int
  max_pages :: int
  visited_urls :: "string fset"
  to_visit_urls :: "string fset"
  seo_results :: "page_issues list"
  fetched :: "string list"

text \<open>
  \<open>SEOCrawler.__init__\<close>. \<open>re.match(r'^https?://', domain)\<close> holds when the string starts
  with \<open>http://\<close> or \<open>https://\<close>. \<open>None\<close> when \<open>urlparse\<close> raises.
\<close>

definition init :: "env \<Rightarrow> string \<Rightarrow> int \<Rightarrow> int \<Rightarrow> SEOCrawler option" where
  "init e domain0 depth pages =
     (let d = (if prefix ''http://'' domain0 \<or> prefix ''https://'' domain0 then domain0
               else ''http://'' @ domain0)
      in case urlparse e d of
           None \<Rightarrow> None
         | Some p \<Rightarrow>
             Some \<lparr>domain = d, base_domain = netloc p, max_depth = depth, max_pages = pages,
                   visited_urls = {||}, to_visit_urls = {|d|}, seo_results = [],
                   fetched = []\<rparr>)"

text \<open>The extensions of line 47.\<close>

definition denylist :: "string list" where
  "denylist = [''.pdf'', ''.jpg'', ''.png'', ''.gif'', ''.css'', ''.js'']"

text \<open>\<open>SEOCrawler._is_valid_url\<close>: an exception of \<open>urlparse\<close> is caught and gives \<open>False\<close>.\<close>

definition is_valid_url :: "env \<Rightarrow> SEOCrawler \<Rightarrow> string \<Rightarrow> bool" where
  "is_valid_url e self url =
     (case urlparse e url of
        None \<Rightarrow> False
      | Some parsed_url \<Rightarrow>
          netloc parsed_url = base_domain self \<and>
          (scheme parsed_url = ''http'' \<or> scheme parsed_url = ''https'') \<and>
          \<not> list_ex (\<lambda>ext. str_in ext url) denylist)"

text \<open>
  Lines 126 to 131, the loop over the anchors of the page. An exception of \<open>urljoin\<close> leaves
  the loop (it is caught at line 135): the links before it stay added, the rest is not read.
\<close>

fun add_links :: "env \<Rightarrow> string \<Rightarrow> string list \<Rightarrow> SEOCrawler \<Rightarrow> SEOCrawler" where
  "add_links e current_url [] self = self"
| "add_links e current_url (href # rest) self =
     (case urljoin e current_url href of
        None \<Rightarrow> self
      | Some full_url \<Rightarrow>
          add_links e current_url rest
            (if is_valid_url e self full_url \<and> full_url |\<notin>| visited_urls self
                \<and> full_url |\<notin>| to_visit_urls self
             then self\<lparr>to_visit_urls := finsert full_url (to_visit_urls self)\<rparr>
             else self))"

text \<open>Line 116: the test on the \<open>Content-Type\<close> header, \<open>''\<close> when there is none.\<close>

definition is_html :: "string option \<Rightarrow> bool" where
  "is_html content_type =
     str_in ''text/html'' (lower (case content_type of None \<Rightarrow> [] | Some c \<Rightarrow> c))"

text \<open>
  One iteration of the \<open>while\<close> loop of \<open>crawl\<close> (lines 108 to 136), for the URL that
  \<open>self.to_visit_urls.pop()\<close> returned. Both \<open>except\<close> clauses only log.
\<close>

definition loop_body :: "env \<Rightarrow> string \<Rightarrow> SEOCrawler \<Rightarrow> SEOCrawler" where
  "loop_body e current_url self0 =
     (let self1 = self0\<lparr>to_visit_urls := to_visit_urls self0 |-| {|current_url|}\<rparr>
      in if current_url |\<in>| visited_urls self1 then self1
         else
           (let self2 = self1\<lparr>fetched := fetched self1 @ [current_url]\<rparr>
            in case session_get e current_url of
                 RequestException \<Rightarrow> self2
               | Response content_type text \<Rightarrow>
                   if \<not> is_html content_type then self2
                   else
                     (let sp = BeautifulSoup e text
                      in case get_page_seo_issues (urlparse e) (base_domain self2) current_url sp of
                           None \<Rightarrow> self2
                         | Some page_issues \<Rightarrow>
                             (let self3 = (if page_issues \<noteq> []
                                           then self2\<lparr>seo_results := seo_results self2 @ [page_issues]\<rparr>
                                           else self2);
                                  self4 = self3\<lparr>visited_urls := finsert current_url (visited_urls self3)\<rparr>
                              in add_links e current_url (a_hrefs sp) self4))))"

text \<open>Line 107, the condition of the \<open>while\<close> loop.\<close>

definition loop_cond :: "SEOCrawler \<Rightarrow> bool" where
  "loop_cond self = (to_visit_urls self \<noteq> {||} \<and> int (fcard (visited_urls self)) < max_pages self)"

text \<open>
  One iteration of the loop as a step relation: \<open>set.pop()\<close> returns an arbitrary member of
  the frontier, so every member gives a step.
\<close>

inductive crawl_step :: "env \<Rightarrow> SEOCrawler \<Rightarrow> SEOCrawler \<Rightarrow> bool" for e :: env where
  pop: "loop_cond self \<Longrightarrow> current_url |\<in>| to_visit_urls self
          \<Longrightarrow> crawl_step e self (loop_body e current_url self)"

text \<open>
  The run in which \<open>pop\<close> returns the URLs of the given list, one per iteration: \<open>None\<close>
  when the loop has ended before the list has, or when a URL is not in the frontier.
\<close>

fun run :: "env \<Rightarrow> string list \<Rightarrow> SEOCrawler \<Rightarrow> SEOCrawler option" where
  "run e [] self = Some self"
| "run e (u # us) self =
     (if loop_cond self \<and> u |\<in>| to_visit_urls self then run e us (loop_body e u self)
      else None)"

text \<open>A crawl from the constructor on: the states at the head of the loop.\<close>

definition crawl_from :: "env \<Rightarrow> string \<Rightarrow> int \<Rightarrow> int \<Rightarrow> string list \<Rightarrow> SEOCrawler option" where
  "crawl_from e domain0 depth pages us =
     (case init e domain0 depth pages of None \<Rightarrow> None | Some self \<Rightarrow> run e us self)"

text \<open>
  The URLs that the loop of lines 126 to 131 offers to the frontier: each \<open>href\<close> joined to
  the URL of the page, up to the first \<open>href\<close> on which \<open>urljoin\<close> raises.
\<close>

fun resolved_links :: "env \<Rightarrow> string \<Rightarrow> string list \<Rightarrow> string list" where
  "resolved_links e current_url [] = []"
| "resolved_links e current_url (href # rest) =
     (case urljoin e current_url href of
        None \<Rightarrow> []
      | Some full_url \<Rightarrow> full_url # resolved_links e current_url rest)"

section \<open>The scoping rule as the specification words it\<close>


text \<open>
  The host of an anchor as the specification counts external links: the \<open>href\<close> is
  resolved against the URL of the page first. \<open>None\<close> when the URL library raises.
\<close>

definition resolved_host :: "env \<Rightarrow> string \<Rightarrow> string \<Rightarrow> string option" where
  "resolved_host e page_url href =
     (case urljoin e page_url href of
        None \<Rightarrow> None
      | Some full_url \<Rightarrow> map_option netloc (urlparse e full_url))"

text \<open>The number of distinct URLs on which a fetch has been performed.\<close>

definition fetch_count :: "SEOCrawler \<Rightarrow> nat" where
  "fetch_count self = card (set (fetched self))"

section \<open>The measure of the crawl loop\<close>

text \<open>
  The pages still allowed by \<open>max_pages\<close>, then the size of the frontier: every iteration of
  the loop decreases the pair in the lexicographic order.
\<close>

definition crawl_measure :: "SEOCrawler \<Rightarrow> nat \<times> nat" where
  "crawl_measure self =
     (nat (max_pages self - int (fcard (visited_urls self))), fcard (to_visit_urls self))"

section \<open>A model of the URL library\<close>

text \<open>
  The general results hold for every \<open>urlparse\<close> and \<open>urljoin\<close>. To run the crawler on
  examples, this section models the two functions of \<open>urllib.parse\<close> on plain URLs:
  \<open>urlparse_std\<close> follows \<open>urlsplit\<close> (scheme, then \<open>//netloc\<close>, then fragment and query),
  and raises on a netloc with one bracket only. It leaves out what \<open>urlsplit\<close> does with
  control characters and with non-ASCII hosts, and keeps the \<open>;params\<close> in the path.
  \<open>urljoin_std\<close> follows \<open>urljoin\<close> for the schemes \<open>http\<close> and \<open>https\<close>, the only ones
  the crawler fetches.
\<close>

definition scheme_chars :: string where
  "scheme_chars = ''abcdefghijklmnopqrstuvwxyzABCDEFGHIJKLMNOPQRSTUVWXYZ0123456789+-.''"

text \<open>\<open>s.split(c, 1)\<close>: the text before the first \<open>c\<close>, and the text after it.\<close>

definition split_first :: "char \<Rightarrow> string \<Rightarrow> string \<times> string" where
  "split_first c s = (takeWhile (\<lambda>x. x \<noteq> c) s, drop 1 (dropWhile (\<lambda>x. x \<noteq> c) s))"

definition urlparse_std :: "string \<Rightarrow> ParseResult option" where
  "urlparse_std url =
     (let pre = takeWhile (\<lambda>c. c \<noteq> CHR '':'') url;
          has_scheme = (CHR '':'' \<in> set url \<and> pre \<noteq> [] \<and> hd pre \<in> set (take 52 scheme_chars)
                         \<and> list_all (\<lambda>c. c \<in> set scheme_chars) pre);
          sch = (if has_scheme then lower pre else []);
          rest = (if has_scheme then drop 1 (dropWhile (\<lambda>c. c \<noteq> CHR '':'') url) else url);
          has_netloc = prefix ''//'' rest;
          loc = (if has_netloc then takeWhile (\<lambda>c. c \<notin> set ''/?#'') (drop 2 rest) else []);
          rest2 = (if has_netloc then dropWhile (\<lambda>c. c \<notin> set ''/?#'') (drop 2 rest) else rest);
          rest3 = fst (split_first CHR ''#'' rest2);
          frag = snd (split_first CHR ''#'' rest2);
          pth = fst (split_first CHR ''?'' rest3);
          qry = snd (split_first CHR ''?'' rest3)
      in if (CHR ''['' \<in> set loc) \<noteq> (CHR '']'' \<in> set loc) then None
         else Some \<lparr>scheme = sch, netloc = loc, path = pth, query = qry, fragment = frag\<rparr>)"

text \<open>\<open>urlunsplit\<close>, for a scheme that uses a netloc.\<close>

definition urlunsplit_std :: "ParseResult \<Rightarrow> string" where
  "urlunsplit_std p =
     (let url1 = (if netloc p \<noteq> [] \<or> (scheme p \<noteq> [] \<and> \<not> prefix ''//'' (path p))
                  then ''//'' @ netloc p
                       @ (if path p \<noteq> [] \<and> \<not> prefix ''/'' (path p) then ''/'' @ path p else path p)
                  else path p);
          url2 = (if scheme p \<noteq> [] then scheme p @ '':'' @ url1 else url1);
          url3 = (if query p \<noteq> [] then url2 @ ''?'' @ query p else url2)
      in if fragment p \<noteq> [] then url3 @ ''#'' @ fragment p else url3)"

text \<open>\<open>s.split(c)\<close> and \<open>sep.join(ws)\<close>.\<close>

fun split_on :: "char \<Rightarrow> string \<Rightarrow> string list" where
  "split_on c [] = [[]]"
| "split_on c (x # xs) =
     (if x = c then [] # split_on c xs
      else (case split_on c xs of [] \<Rightarrow> [[x]] | w # ws \<Rightarrow> (x # w) # ws))"

fun join_with :: "string \<Rightarrow> string list \<Rightarrow> string" where
  "join_with sep [] = []"
| "join_with sep [w] = w"
| "join_with sep (w # v # ws) = w @ sep @ join_with sep (v # ws)"

text \<open>The loop of \<open>urljoin\<close> over the path segments: \<open>..\<close> pops, \<open>.\<close> is skipped.\<close>

fun resolve_segments :: "string list \<Rightarrow> string list \<Rightarrow> string list" where
  "resolve_segments acc [] = acc"
| "resolve_segments acc (seg # rest) =
     resolve_segments
       (if seg = ''..'' then butlast acc else if seg = ''.'' then acc else acc @ [seg]) rest"

definition merge_path :: "string \<Rightarrow> string \<Rightarrow> string" where
  "merge_path bpath pth =
     (let parts = split_on CHR ''/'' bpath;
          base_parts = (if last parts \<noteq> [] then butlast parts else parts);
          joined = base_parts @ split_on CHR ''/'' pth;
          segments = (if prefix ''/'' pth then split_on CHR ''/'' pth
                      else if length joined \<le> 1 then joined
                      else hd joined # filter (\<lambda>s. s \<noteq> []) (butlast (tl joined)) @ [last joined]);
          resolved = resolve_segments [] segments;
          resolved_path = (if last segments = ''.'' \<or> last segments = ''..''
                           then resolved @ [[]] else resolved);
          res = join_with ''/'' resolved_path
      in if res = [] then ''/'' else res)"

definition urljoin_std :: "string \<Rightarrow> string \<Rightarrow> string option" where
  "urljoin_std base url =
     (if base = [] then Some url
      else if url = [] then Some base
      else case urlparse_std base of
             None \<Rightarrow> None
           | Some b \<Rightarrow>
               (case urlparse_std url of
                  None \<Rightarrow> None
                | Some u \<Rightarrow>
                    (let sch = (if scheme u = [] then scheme b else scheme u)
                     in if sch \<noteq> scheme b \<or> (sch \<noteq> ''http'' \<and> sch \<noteq> ''https'') then Some url
                        else if netloc u \<noteq> [] then Some (urlunsplit_std (u\<lparr>scheme := sch\<rparr>))
                        else if path u = []
                        then Some (urlunsplit_std
                               \<lparr>scheme = sch, netloc = netloc b, path = path b,
                                query = (if query u = [] then query b else query u),
                                fragment = fragment u\<rparr>)
                        else Some (urlunsplit_std
                               \<lparr>scheme = sch, netloc = netloc b,
                                path = merge_path (path b) (path u),
                                query = query u, fragment = fragment u\<rparr>))))"

section \<open>Example sites\<close>

definition std_env :: "(string \<Rightarrow> fetch_result) \<Rightarrow> (string \<Rightarrow> soup) \<Rightarrow> env" where
  "std_env get parse =
     \<lparr>urlparse = urlparse_std, urljoin = urljoin_std, session_get = get, BeautifulSoup = parse\<rparr>"

text \<open>A document with a title and anchors, and nothing else.\<close>

definition page :: "string \<Rightarrow> string list \<Rightarrow> soup" where
  "page t hrefs =
     \<lparr>title_tag = Some t, meta_desc = None, headings = (\<lambda>i. []), a_hrefs = hrefs, imgs = []\<rparr>"

text \<open>
  A site of the host \<open>example.com\<close>. The home page links to \<open>/a\<close>, \<open>/b\<close> and \<open>/feed\<close>, to
  another host and to a JSON file; \<open>/b\<close> links back to \<open>/a\<close> and \<open>/feed\<close>. \<open>/feed\<close> is served
  as RSS, and every other URL, \<open>/a\<close> among them, fails with a network error.
\<close>

definition site1_get :: "string \<Rightarrow> fetch_result" where
  "site1_get url =
     (if url = ''http://example.com'' then Response (Some ''text/html; charset=utf-8'') ''home''
      else if url = ''http://example.com/b'' then Response (Some ''text/html'') ''b''
      else if url = ''http://example.com/feed'' then Response (Some ''application/rss+xml'') ''feed''
      else RequestException)"

definition site1_parse :: "string \<Rightarrow> soup" where
  "site1_parse text =
     (if text = ''home''
      then page ''Home'' [''/a'', ''/b'', ''/feed'', ''http://other.org/'', ''/data.json'']
      else page ''B'' [''/a'', ''/feed''])"

definition site1 :: env where
  "site1 = std_env site1_get site1_parse"

text \<open>
  A site whose home page links to eleven pages of the same host, with relative links, all
  of which fail with a network error.
\<close>

definition links11 :: "string list" where
  "links11 = [''/x1'', ''/x2'', ''/x3'', ''/x4'', ''/x5'', ''/x6'', ''/x7'', ''/x8'', ''/x9'',
              ''/xa'', ''/xb'']"

definition site2_get :: "string \<Rightarrow> fetch_result" where
  "site2_get url =
     (if url = ''http://example.com'' then Response (Some ''text/html'') ''home''
      else RequestException)"

definition site2 :: env where
  "site2 = std_env site2_get (\<lambda>text. page ''Home'' links11)"

text \<open>
  Documents for the analyser: one on which no rule fires (a title of 10 characters, a
  description of 50, one heading of every level), and documents that differ from it in the
  headings or in the title.
\<close>

definition clean_soup :: soup where
  "clean_soup =
     \<lparr>title_tag = Some ''Home pages'',
      meta_desc = Some (Some ''A description of fifty characters for this page ok''),
      headings = (\<lambda>i. if 1 \<le> i \<and> i \<le> 6 then [''heading''] else []),
      a_hrefs = [], imgs = []\<rparr>"

definition h13_soup :: soup where
  "h13_soup = clean_soup\<lparr>headings := (\<lambda>i. if i = 1 \<or> i = 3 then [''heading''] else [])\<rparr>"

definition h123_soup :: soup where
  "h123_soup = clean_soup\<lparr>headings := (\<lambda>i. if 1 \<le> i \<and> i \<le> 3 then [''heading''] else [])\<rparr>"

definition title9_soup :: soup where
  "title9_soup = clean_soup\<lparr>title_tag := Some ''Home page''\<rparr>"

definition site3 :: env where
  "site3 = std_env (\<lambda>url. Response (Some ''text/html'') ''clean'') (\<lambda>text. clean_soup)"

text \<open>The crawler that \<open>SEOCrawler('example.com')\<close> constructs, with the default limits.\<close>

definition crawler1 :: SEOCrawler where
  "crawler1 =
     \<lparr>domain = ''http://example.com'', base_domain = ''example.com'', max_depth = 3,
      max_pages = 50, visited_urls = {||}, to_visit_urls = {|''http://example.com''|},
      seo_results = [], fetched = []\<rparr>"

text \<open>The URLs that \<open>pop\<close> returns in one crawl of the second site: the home page, then its links.\<close>

definition pops2 :: "string list" where
  "pops2 = ''http://example.com'' # map (\<lambda>href. ''http://example.com'' @ href) links11"

section \<open>The records of the analyser\<close>

lemma map_of_filter_snd:
  "distinct (map fst xs) \<Longrightarrow>
   map_of (filter (\<lambda>kv. P (snd kv)) xs) k =
     (case map_of xs k of None \<Rightarrow> None | Some v \<Rightarrow> if P v then Some v else None)"
proof (induction xs)
  case Nil
  then show ?case by simp
next
  case (Cons x xs)
  then have "map_of xs (fst x) = None"
    by (simp add: map_of_eq_None_iff)
  with Cons show ?case
    by (cases x) (auto split: option.splits)
qed

lemma get_page_map_of:
  assumes "get_page_seo_issues up base url sp = Some r"
    and "external_links up base (a_hrefs sp) = Some ext"
  shows "map_of r k =
    (case map_of
       [(''URL'', Str url),
        (''Title Issues'', StrList (title_issues sp)),
        (''Meta Description Issues'', StrList (meta_description_issues sp)),
        (''Heading Structure Issues'', StrList (heading_structure_issues sp)),
        (''Link Issues'', StrList (link_issues ext)),
        (''Image SEO Issues'', StrList (image_issues sp))] k of
       None \<Rightarrow> None | Some v \<Rightarrow> if truthy v then Some v else None)"
proof -
  have r: "r = filter (\<lambda>kv. truthy (snd kv))
       [(''URL'', Str url),
        (''Title Issues'', StrList (title_issues sp)),
        (''Meta Description Issues'', StrList (meta_description_issues sp)),
        (''Heading Structure Issues'', StrList (heading_structure_issues sp)),
        (''Link Issues'', StrList (link_issues ext)),
        (''Image SEO Issues'', StrList (image_issues sp))]"
    using assms by (simp add: get_page_seo_issues_def)
  show ?thesis
    unfolding r by (rule map_of_filter_snd) simp
qed

lemma get_page_ext:
  "get_page_seo_issues up base url sp = Some r \<Longrightarrow> \<exists>ext. external_links up base (a_hrefs sp) = Some ext"
  by (simp add: get_page_seo_issues_def split: option.splits)

lemma map_of_title:
  assumes "get_page_seo_issues up base url sp = Some r"
  shows "map_of r ''Title Issues'' =
    (if title_issues sp = [] then None else Some (StrList (title_issues sp)))"
proof -
  from assms obtain ext where "external_links up base (a_hrefs sp) = Some ext"
    using get_page_ext by blast
  with assms show ?thesis by (simp add: get_page_map_of)
qed

lemma map_of_heading:
  assumes "get_page_seo_issues up base url sp = Some r"
  shows "map_of r ''Heading Structure Issues'' =
    (if heading_structure_issues sp = [] then None else Some (StrList (heading_structure_issues sp)))"
proof -
  from assms obtain ext where "external_links up base (a_hrefs sp) = Some ext"
    using get_page_ext by blast
  with assms show ?thesis by (simp add: get_page_map_of)
qed

lemma issues_of_heading:
  assumes "get_page_seo_issues up base url sp = Some r"
  shows "issues_of r ''Heading Structure Issues'' = heading_structure_issues sp"
  unfolding issues_of_def map_of_heading [OF assms] by simp

lemma str_nat_small:
  "str_nat 2 = ''2''" "str_nat 3 = ''3''" "str_nat 4 = ''4''" "str_nat 5 = ''5''"
  "str_nat 6 = ''6''" "str_nat 9 = ''9''" "str_nat 61 = ''61''"
  by (simp_all add: str_nat.simps)

lemma succ_numerals:
  "(1::nat) + 1 = 2" "(2::nat) + 1 = 3" "(3::nat) + 1 = 4" "(4::nat) + 1 = 5" "(5::nat) + 1 = 6"
  by simp_all

lemma heading_structure_issues_unfold:
  "heading_structure_issues sp =
     (if headings sp 1 = [] then [''No H1 Tag Found'']
      else if length (headings sp 1) > 1 then [''Multiple H1 Tags''] else [])
     @ (if headings sp 1 \<noteq> [] \<and> headings sp 2 = [] then [hierarchy_issue 2] else [])
     @ (if headings sp 2 \<noteq> [] \<and> headings sp 3 = [] then [hierarchy_issue 3] else [])
     @ (if headings sp 3 \<noteq> [] \<and> headings sp 4 = [] then [hierarchy_issue 4] else [])
     @ (if headings sp 4 \<noteq> [] \<and> headings sp 5 = [] then [hierarchy_issue 5] else [])
     @ (if headings sp 5 \<noteq> [] \<and> headings sp 6 = [] then [hierarchy_issue 6] else [])"
proof -
  have u: "[1 ..< 6] = [1, 2, 3, 4, 5::nat]"
    by (simp add: upt_rec)
  show ?thesis
    unfolding heading_structure_issues_def u
    by (simp only: list.map concat.simps succ_numerals append_Nil2)
qed

lemma hierarchy_issue_mem_cases:
  "(hierarchy_issue 2 \<in> set (heading_structure_issues sp)) = (headings sp 1 \<noteq> [] \<and> headings sp 2 = [])"
  "(hierarchy_issue 3 \<in> set (heading_structure_issues sp)) = (headings sp 2 \<noteq> [] \<and> headings sp 3 = [])"
  "(hierarchy_issue 4 \<in> set (heading_structure_issues sp)) = (headings sp 3 \<noteq> [] \<and> headings sp 4 = [])"
  "(hierarchy_issue 5 \<in> set (heading_structure_issues sp)) = (headings sp 4 \<noteq> [] \<and> headings sp 5 = [])"
  "(hierarchy_issue 6 \<in> set (heading_structure_issues sp)) = (headings sp 5 \<noteq> [] \<and> headings sp 6 = [])"
  unfolding heading_structure_issues_unfold
  by (simp_all add: hierarchy_issue_def str_nat_small)

lemma hierarchy_issue_mem:
  assumes "1 \<le> k" and "k \<le> 5"
  shows "(hierarchy_issue (k + 1) \<in> set (heading_structure_issues sp)) =
         (headings sp k \<noteq> [] \<and> headings sp (k + 1) = [])"
proof -
  from assms have "k = 1 \<or> k = 2 \<or> k = 3 \<or> k = 4 \<or> k = 5" by arith
  then show ?thesis
    by (elim disjE) (simp_all only: succ_numerals hierarchy_issue_mem_cases)
qed

section \<open>The link loop and the loop body\<close>

lemma is_valid_url_base:
  "base_domain s' = base_domain s \<Longrightarrow> is_valid_url e s' u = is_valid_url e s u"
  by (simp add: is_valid_url_def split: option.splits)

lemma add_links_frame:
  "visited_urls (add_links e c hs s) = visited_urls s \<and>
   base_domain (add_links e c hs s) = base_domain s \<and>
   max_pages (add_links e c hs s) = max_pages s \<and>
   domain (add_links e c hs s) = domain s \<and>
   seo_results (add_links e c hs s) = seo_results s \<and>
   fetched (add_links e c hs s) = fetched s"
  by (induction hs arbitrary: s) (auto split: option.splits)

lemma add_links_mem:
  "u |\<in>| to_visit_urls (add_links e c hs s) \<longleftrightarrow>
     u |\<in>| to_visit_urls s \<or>
     (u \<in> set (resolved_links e c hs) \<and> u |\<notin>| visited_urls s \<and> is_valid_url e s u)"
proof (induction hs arbitrary: s)
  case Nil
  then show ?case by simp
next
  case (Cons h hs)
  show ?case
  proof (cases "urljoin e c h")
    case None
    then show ?thesis by simp
  next
    case (Some full)
    let ?s' = "if is_valid_url e s full \<and> full |\<notin>| visited_urls s \<and> full |\<notin>| to_visit_urls s
               then s\<lparr>to_visit_urls := finsert full (to_visit_urls s)\<rparr> else s"
    have v: "visited_urls ?s' = visited_urls s" by simp
    have b: "is_valid_url e ?s' u = is_valid_url e s u"
      by (rule is_valid_url_base) simp
    have "u |\<in>| to_visit_urls (add_links e c (h # hs) s) \<longleftrightarrow>
          u |\<in>| to_visit_urls (add_links e c hs ?s')"
      using Some by simp
    also have "\<dots> \<longleftrightarrow> u |\<in>| to_visit_urls ?s' \<or>
        (u \<in> set (resolved_links e c hs) \<and> u |\<notin>| visited_urls ?s' \<and> is_valid_url e ?s' u)"
      by (rule Cons.IH)
    also have "\<dots> \<longleftrightarrow> u |\<in>| to_visit_urls s \<or>
        (u \<in> set (resolved_links e c (h # hs)) \<and> u |\<notin>| visited_urls s \<and> is_valid_url e s u)"
      unfolding v b using Some by auto
    finally show ?thesis .
  qed
qed

lemma loop_body_frame:
  "base_domain (loop_body e u s) = base_domain s \<and>
   max_pages (loop_body e u s) = max_pages s \<and>
   domain (loop_body e u s) = domain s"
  by (simp add: loop_body_def Let_def add_links_frame split: fetch_result.splits option.splits)

lemma add_links_disjoint:
  "to_visit_urls s |\<inter>| visited_urls s = {||} \<Longrightarrow>
   to_visit_urls (add_links e c hs s) |\<inter>| visited_urls (add_links e c hs s) = {||}"
proof -
  assume d: "to_visit_urls s |\<inter>| visited_urls s = {||}"
  have "\<And>u. u |\<in>| to_visit_urls (add_links e c hs s) \<Longrightarrow> u |\<notin>| visited_urls s"
    using d by (auto simp: add_links_mem)
  then show ?thesis
    by (auto simp: add_links_frame)
qed

lemma loop_body_cases:
  obtains
    (skipped) "loop_body e u s = s\<lparr>to_visit_urls := to_visit_urls s |-| {|u|}\<rparr>"
      and "u |\<in>| visited_urls s"
  | (dropped) "loop_body e u s =
        s\<lparr>to_visit_urls := to_visit_urls s |-| {|u|}, fetched := fetched s @ [u]\<rparr>"
      and "u |\<notin>| visited_urls s"
      and "session_get e u = RequestException
           \<or> (\<exists>ct body. session_get e u = Response ct body \<and>
                 (\<not> is_html ct \<or> get_page_seo_issues (urlparse e) (base_domain s) u
                                     (BeautifulSoup e body) = None))"
  | (analysed) ct body r where "session_get e u = Response ct body" and "is_html ct"
      and "get_page_seo_issues (urlparse e) (base_domain s) u (BeautifulSoup e body) = Some r"
      and "u |\<notin>| visited_urls s"
      and "loop_body e u s =
        add_links e u (a_hrefs (BeautifulSoup e body))
          (s\<lparr>to_visit_urls := to_visit_urls s |-| {|u|}, fetched := fetched s @ [u],
             seo_results := (if r \<noteq> [] then seo_results s @ [r] else seo_results s),
             visited_urls := finsert u (visited_urls s)\<rparr>)"
proof (cases "u |\<in>| visited_urls s")
  case True
  then have "loop_body e u s = s\<lparr>to_visit_urls := to_visit_urls s |-| {|u|}\<rparr>"
    by (simp add: loop_body_def)
  then show ?thesis using True by (rule skipped)
next
  case nv: False
  show ?thesis
  proof (cases "session_get e u")
    case RequestException
    then have "loop_body e u s =
        s\<lparr>to_visit_urls := to_visit_urls s |-| {|u|}, fetched := fetched s @ [u]\<rparr>"
      using nv by (simp add: loop_body_def)
    then show ?thesis using nv RequestException by (intro dropped) auto
  next
    case (Response ct body)
    show ?thesis
    proof (cases "is_html ct")
      case False
      then have "loop_body e u s =
          s\<lparr>to_visit_urls := to_visit_urls s |-| {|u|}, fetched := fetched s @ [u]\<rparr>"
        using nv Response by (simp add: loop_body_def)
      then show ?thesis using nv Response False by (intro dropped) auto
    next
      case True
      show ?thesis
      proof (cases "get_page_seo_issues (urlparse e) (base_domain s) u (BeautifulSoup e body)")
        case None
        then have "loop_body e u s =
            s\<lparr>to_visit_urls := to_visit_urls s |-| {|u|}, fetched := fetched s @ [u]\<rparr>"
          using nv Response True by (simp add: loop_body_def)
        then show ?thesis using nv Response None by (intro dropped) auto
      next
        case (Some r)
        have "loop_body e u s =
          add_links e u (a_hrefs (BeautifulSoup e body))
            (s\<lparr>to_visit_urls := to_visit_urls s |-| {|u|}, fetched := fetched s @ [u],
               seo_results := (if r \<noteq> [] then seo_results s @ [r] else seo_results s),
               visited_urls := finsert u (visited_urls s)\<rparr>)"
          using nv Response True Some by (simp add: loop_body_def Let_def)
        with Response True Some nv show ?thesis by (rule analysed)
      qed
    qed
  qed
qed

lemma loop_body_disjoint:
  assumes "to_visit_urls s |\<inter>| visited_urls s = {||}"
  shows "to_visit_urls (loop_body e u s) |\<inter>| visited_urls (loop_body e u s) = {||}"
proof (cases e u s rule: loop_body_cases)
  case skipped
  then show ?thesis using assms by auto
next
  case dropped
  then show ?thesis using assms by auto
next
  case (analysed ct body r)
  have "to_visit_urls s |-| {|u|} |\<inter>| finsert u (visited_urls s) = {||}"
    using assms by auto
  then show ?thesis
    unfolding analysed(5) by (intro add_links_disjoint) simp
qed

lemma run_append: "run e (us @ vs) s = (case run e us s of None \<Rightarrow> None | Some s' \<Rightarrow> run e vs s')"
  by (induction us arbitrary: s) auto

lemma run_steps: "run e us s = Some s' \<Longrightarrow> (crawl_step e)\<^sup>*\<^sup>* s s'"
proof (induction us arbitrary: s)
  case Nil
  then show ?case by simp
next
  case (Cons u us)
  from Cons.prems have c: "loop_cond s" "u |\<in>| to_visit_urls s"
    and r: "run e us (loop_body e u s) = Some s'"
    by (auto split: if_splits)
  have "crawl_step e s (loop_body e u s)" using c by (rule crawl_step.pop)
  moreover have "(crawl_step e)\<^sup>*\<^sup>* (loop_body e u s) s'" using r by (rule Cons.IH)
  ultimately show ?case by (rule converse_rtranclp_into_rtranclp)
qed

text \<open>Every state that the loop reaches is the result of \<open>run\<close> on the URLs popped.\<close>

lemma steps_run: "(crawl_step e)\<^sup>*\<^sup>* s s' \<Longrightarrow> \<exists>us. run e us s = Some s'"
proof (induction rule: rtranclp_induct)
  case base
  have "run e [] s = Some s" by simp
  then show ?case by blast
next
  case (step y z)
  then obtain us where us: "run e us s = Some y" by blast
  from step.hyps(2) obtain u where u: "loop_cond y" "u |\<in>| to_visit_urls y" "z = loop_body e u y"
    by (auto elim: crawl_step.cases)
  have "run e (us @ [u]) s = Some z"
    using us u by (simp add: run_append)
  then show ?case by blast
qed

lemma run_disjoint:
  "run e us s = Some s' \<Longrightarrow> to_visit_urls s |\<inter>| visited_urls s = {||}
     \<Longrightarrow> to_visit_urls s' |\<inter>| visited_urls s' = {||}"
proof (induction us arbitrary: s)
  case Nil
  then show ?case by simp
next
  case (Cons u us)
  from Cons.prems(1) have r: "run e us (loop_body e u s) = Some s'"
    by (simp split: if_splits)
  from Cons.prems(2) have "to_visit_urls (loop_body e u s) |\<inter>| visited_urls (loop_body e u s) = {||}"
    by (rule loop_body_disjoint)
  with r show ?case by (rule Cons.IH)
qed

lemma init_disjoint:
  "init e d dp mp = Some s \<Longrightarrow> to_visit_urls s |\<inter>| visited_urls s = {||}"
  by (auto simp: init_def Let_def split: option.splits)

lemma crawl_from_disjoint:
  "crawl_from e d dp mp us = Some s \<Longrightarrow> to_visit_urls s |\<inter>| visited_urls s = {||}"
  by (auto simp: crawl_from_def split: option.splits dest: init_disjoint run_disjoint)


lemma fcard_pop: "u |\<in>| A \<Longrightarrow> fcard (A |-| {|u|}) < fcard A"
  by (rule fcard_fminus1_less)

lemma loop_body_decreases:
  assumes c: "loop_cond s" and m: "u |\<in>| to_visit_urls s"
  shows "(crawl_measure (loop_body e u s), crawl_measure s) \<in> less_than <*lex*> less_than"
proof (cases e u s rule: loop_body_cases)
  case skipped
  then show ?thesis using fcard_pop [OF m] by (simp add: crawl_measure_def)
next
  case dropped
  then show ?thesis using fcard_pop [OF m] by (simp add: crawl_measure_def)
next
  case (analysed ct body r)
  have "int (fcard (visited_urls s)) < max_pages s" using c by (simp add: loop_cond_def)
  moreover have "fcard (finsert u (visited_urls s)) = Suc (fcard (visited_urls s))"
    using analysed(4) by (simp add: fcard_finsert_disjoint)
  ultimately show ?thesis
    unfolding analysed(5) by (simp add: crawl_measure_def add_links_frame)
qed

lemma wf_crawl_step: "wf {(s', s). crawl_step e s s'}"
proof (rule wf_subset)
  show "wf (inv_image (less_than <*lex*> less_than) crawl_measure)"
    by (intro wf_inv_image wf_lex_prod wf_less_than)
  show "{(s', s). crawl_step e s s'} \<subseteq> inv_image (less_than <*lex*> less_than) crawl_measure"
    by (auto simp: inv_image_def elim!: crawl_step.cases intro: loop_body_decreases simp del: in_lex_prod)
qed

lemma step_iff_cond: "(\<exists>s'. crawl_step e s s') = loop_cond s"
proof
  assume "\<exists>s'. crawl_step e s s'"
  then show "loop_cond s" by (auto elim: crawl_step.cases)
next
  assume c: "loop_cond s"
  then obtain u where "u |\<in>| to_visit_urls s" by (auto simp: loop_cond_def)
  with c have "crawl_step e s (loop_body e u s)" by (rule crawl_step.pop)
  then show "\<exists>s'. crawl_step e s s'" by blast
qed

lemma reaches_terminal: "\<exists>s'. (crawl_step e)\<^sup>*\<^sup>* s s' \<and> \<not> loop_cond s'"
proof (induction s rule: wf_induct_rule [OF wf_crawl_step [of e]])
  case (1 s)
  show ?case
  proof (cases "loop_cond s")
    case False
    then show ?thesis by blast
  next
    case True
    then obtain t where t: "crawl_step e s t" using step_iff_cond [of e s] by blast
    then obtain s' where "(crawl_step e)\<^sup>*\<^sup>* t s'" "\<not> loop_cond s'" using "1.IH" [of t] by auto
    with t show ?thesis by (meson converse_rtranclp_into_rtranclp)
  qed
qed

section \<open>Invariants of a crawl\<close>

lemma loop_body_frontier:
  assumes "v |\<in>| to_visit_urls (loop_body e w t)" and "v |\<notin>| to_visit_urls t"
  shows "\<exists>ct body. session_get e w = Response ct body \<and> is_html ct \<and>
           v \<in> set (resolved_links e w (a_hrefs (BeautifulSoup e body))) \<and>
           is_valid_url e t v"
proof (cases e w t rule: loop_body_cases)
  case skipped
  then show ?thesis using assms by auto
next
  case dropped
  then show ?thesis using assms by auto
next
  case (analysed ct body r)
  let ?t = "t\<lparr>to_visit_urls := to_visit_urls t |-| {|w|}, fetched := fetched t @ [w],
             seo_results := (if r \<noteq> [] then seo_results t @ [r] else seo_results t),
             visited_urls := finsert w (visited_urls t)\<rparr>"
  have "is_valid_url e ?t v = is_valid_url e t v"
    by (rule is_valid_url_base) simp
  then have "v \<in> set (resolved_links e w (a_hrefs (BeautifulSoup e body))) \<and> is_valid_url e t v"
    using assms unfolding analysed(5) add_links_mem by auto
  with analysed(1,2) show ?thesis by blast
qed

lemma run_frame:
  "run e us s = Some s' \<Longrightarrow>
   base_domain s' = base_domain s \<and> max_pages s' = max_pages s \<and> domain s' = domain s"
  by (induction us arbitrary: s) (auto simp: loop_body_frame split: if_splits)




lemma loop_body_cap:
  assumes c: "loop_cond s"
    and i: "int (fcard (visited_urls s)) \<le> max 0 (max_pages s)"
           "visited_urls s |\<subseteq>| fset_of_list (fetched s)"
           "length (seo_results s) \<le> fcard (visited_urls s)"
  shows "int (fcard (visited_urls (loop_body e u s))) \<le> max 0 (max_pages s) \<and>
         visited_urls (loop_body e u s) |\<subseteq>| fset_of_list (fetched (loop_body e u s)) \<and>
         length (seo_results (loop_body e u s)) \<le> fcard (visited_urls (loop_body e u s))"
proof (cases e u s rule: loop_body_cases)
  case skipped
  then show ?thesis using i by simp
next
  case dropped
  then show ?thesis using i by auto
next
  case (analysed ct body r)
  have lt: "int (fcard (visited_urls s)) < max_pages s"
    using c by (simp add: loop_cond_def)
  have fc: "fcard (finsert u (visited_urls s)) = Suc (fcard (visited_urls s))"
    using analysed(4) by (simp add: fcard_finsert_disjoint)
  show ?thesis
    unfolding analysed(5) using lt i(2,3) by (auto simp: add_links_frame fc)
qed

lemma run_cap:
  assumes "run e us s = Some s'"
    and "int (fcard (visited_urls s)) \<le> max 0 (max_pages s)"
    and "visited_urls s |\<subseteq>| fset_of_list (fetched s)"
    and "length (seo_results s) \<le> fcard (visited_urls s)"
  shows "int (fcard (visited_urls s')) \<le> max 0 (max_pages s) \<and>
         visited_urls s' |\<subseteq>| fset_of_list (fetched s') \<and>
         length (seo_results s') \<le> fcard (visited_urls s')"
  using assms
proof (induction us arbitrary: s)
  case Nil
  then show ?case by simp
next
  case (Cons u us)
  from Cons.prems(1) have c: "loop_cond s" and r: "run e us (loop_body e u s) = Some s'"
    by (simp_all split: if_splits)
  have m: "max_pages (loop_body e u s) = max_pages s"
    by (simp add: loop_body_frame)
  from loop_body_cap [OF c Cons.prems(2,3,4), of e u]
  show ?case
    using Cons.IH [OF r] unfolding m by blast
qed

section \<open>Claims about the page analyser\<close>

text \<open>
  Claim C9. For a document whose title is not empty or whitespace only, a title of exactly
  10 or exactly 60 characters gives no title issue, and a title of 9 or of 61 characters
  gives the title length issue, whose text holds the length. In general the issue is there
  exactly when the length is outside 10..60.
\<close>

theorem title_length_boundary:
  assumes "get_page_seo_issues up base url sp = Some r"
    and "title_tag sp = Some t" and "strip t \<noteq> []"
  shows "(length t = 10 \<or> length t = 60 \<longrightarrow> map_of r ''Title Issues'' = None) \<and>
         (length t = 9 \<longrightarrow> map_of r ''Title Issues'' =
            Some (StrList [''Title Tag Length Issue (Current: 9 chars)''])) \<and>
         (length t = 61 \<longrightarrow> map_of r ''Title Issues'' =
            Some (StrList [''Title Tag Length Issue (Current: 61 chars)''])) \<and>
         map_of r ''Title Issues'' =
           (if 10 \<le> length t \<and> length t \<le> 60 then None
            else Some (StrList [''Title Tag Length Issue (Current: '' @ str_nat (length t)
                                @ '' chars)'']))"
proof -
  have ti: "title_issues sp =
      (if 10 \<le> length t \<and> length t \<le> 60 then []
       else [''Title Tag Length Issue (Current: '' @ str_nat (length t) @ '' chars)''])"
    using assms(2,3) by (auto simp: title_issues_def)
  have m: "map_of r ''Title Issues'' =
      (if title_issues sp = [] then None else Some (StrList (title_issues sp)))"
    using assms(1) by (rule map_of_title)
  show ?thesis
    unfolding m ti by (auto simp: str_nat_small)
qed

theorem title_length_boundary_witness:
  "get_page_seo_issues urlparse_std ''example.com'' ''http://example.com'' title9_soup =
     Some [(''URL'', Str ''http://example.com''),
           (''Title Issues'', StrList [''Title Tag Length Issue (Current: 9 chars)''])] \<and>
   title_tag title9_soup = Some ''Home page'' \<and> strip ''Home page'' \<noteq> [] \<and>
   length ''Home page'' = 9 \<and>
   map_of [(''URL'', Str ''http://example.com''),
           (''Title Issues'', StrList [''Title Tag Length Issue (Current: 9 chars)''])]
     ''Title Issues'' = Some (StrList [''Title Tag Length Issue (Current: 9 chars)''])"
proof -
  have a: "get_page_seo_issues urlparse_std ''example.com'' ''http://example.com'' title9_soup =
     Some [(''URL'', Str ''http://example.com''),
           (''Title Issues'', StrList [''Title Tag Length Issue (Current: 9 chars)''])]"
    by code_simp
  have b: "title_tag title9_soup = Some ''Home page''"
    by (simp add: title9_soup_def clean_soup_def)
  have c: "strip ''Home page'' \<noteq> []"
    by code_simp
  have d: "length ''Home page'' = 9"
    by simp
  from title_length_boundary [OF a b c] d a b c show ?thesis
    by blast
qed

text \<open>
  Claim C5, as the code has it. For every level \<open>k\<close> from 1 to 5, the issue "Missing
  H(k+1)" is in the record exactly when the document has an element of level \<open>k\<close> and none
  of level \<open>k+1\<close>. So a document with an H1, an H3 and no H2 gets "Missing H2", and a
  document with an H1, an H2 and an H3 gets neither "Missing H2" nor "Missing H3"; it still
  gets "Missing H4" when it has no H4.
\<close>

theorem heading_hierarchy_issue_iff:
  assumes "get_page_seo_issues up base url sp = Some r" and "1 \<le> k" and "k \<le> 5"
  shows "(''Potential Heading Hierarchy Issue (Missing H'' @ str_nat (k + 1) @ '')''
            \<in> set (issues_of r ''Heading Structure Issues'')) =
         (headings sp k \<noteq> [] \<and> headings sp (k + 1) = [])"
  using hierarchy_issue_mem [OF assms(2,3), of sp]
  unfolding issues_of_heading [OF assms(1)] hierarchy_issue_def .

theorem heading_hierarchy_issue_iff_witness:
  "get_page_seo_issues urlparse_std ''example.com'' ''http://example.com'' h13_soup =
     Some [(''URL'', Str ''http://example.com''),
           (''Heading Structure Issues'',
            StrList [''Potential Heading Hierarchy Issue (Missing H2)'',
                     ''Potential Heading Hierarchy Issue (Missing H4)''])] \<and>
   (1::nat) \<le> 1 \<and> (1::nat) \<le> 5 \<and>
   headings h13_soup 1 \<noteq> [] \<and> headings h13_soup 3 \<noteq> [] \<and> headings h13_soup 2 = [] \<and>
   ''Potential Heading Hierarchy Issue (Missing H2)''
     \<in> set (issues_of [(''URL'', Str ''http://example.com''),
           (''Heading Structure Issues'',
            StrList [''Potential Heading Hierarchy Issue (Missing H2)'',
                     ''Potential Heading Hierarchy Issue (Missing H4)''])]
          ''Heading Structure Issues'')"
proof -
  have a: "get_page_seo_issues urlparse_std ''example.com'' ''http://example.com'' h13_soup =
     Some [(''URL'', Str ''http://example.com''),
           (''Heading Structure Issues'',
            StrList [''Potential Heading Hierarchy Issue (Missing H2)'',
                     ''Potential Heading Hierarchy Issue (Missing H4)''])]"
    by code_simp
  have h: "headings h13_soup 1 \<noteq> []" "headings h13_soup 3 \<noteq> []" "headings h13_soup 2 = []"
    by (simp_all add: h13_soup_def)
  have k: "(1::nat) \<le> 1" "(1::nat) \<le> 5"
    by simp_all
  have s: "''Potential Heading Hierarchy Issue (Missing H'' @ str_nat (1 + 1) @ '')''
      = ''Potential Heading Hierarchy Issue (Missing H2)''"
    by (simp only: succ_numerals str_nat_small) simp
  from heading_hierarchy_issue_iff [OF a k] h
  have "''Potential Heading Hierarchy Issue (Missing H'' @ str_nat (1 + 1) @ '')''
     \<in> set (issues_of [(''URL'', Str ''http://example.com''),
           (''Heading Structure Issues'',
            StrList [''Potential Heading Hierarchy Issue (Missing H2)'',
                     ''Potential Heading Hierarchy Issue (Missing H4)''])]
          ''Heading Structure Issues'')"
    by (simp only: succ_numerals simp_thms)
  then show ?thesis
    unfolding s using a h k by blast
qed

text \<open>
  The claim as the specification states it fails: a document with one H1, one H2 and one H3
  and no H4 gets a heading hierarchy issue.
\<close>

theorem heading_hierarchy_counterexample:
  "headings h123_soup 1 \<noteq> [] \<and> headings h123_soup 2 \<noteq> [] \<and> headings h123_soup 3 \<noteq> [] \<and>
   get_page_seo_issues urlparse_std ''example.com'' ''http://example.com'' h123_soup =
     Some [(''URL'', Str ''http://example.com''),
           (''Heading Structure Issues'',
            StrList [''Potential Heading Hierarchy Issue (Missing H4)''])]"
proof -
  have "get_page_seo_issues urlparse_std ''example.com'' ''http://example.com'' h123_soup =
     Some [(''URL'', Str ''http://example.com''),
           (''Heading Structure Issues'',
            StrList [''Potential Heading Hierarchy Issue (Missing H4)''])]"
    by code_simp
  then show ?thesis
    by (simp add: h123_soup_def)
qed

section \<open>Claims about the crawl loop\<close>

text \<open>
  Claim C6. The crawl loop terminates, whatever the site serves and whatever URL
  \<open>pop\<close> returns: the step relation has no infinite run; a state has no step exactly when
  the frontier is empty or the visited set has reached the page cap; and from every state
  the loop reaches such a state.
\<close>

theorem crawl_terminates:
  "wf {(s', s). crawl_step e s s'} \<and>
   (\<nexists>s'. crawl_step e s s') =
     (to_visit_urls s = {||} \<or> max_pages s \<le> int (fcard (visited_urls s))) \<and>
   (\<exists>s'. (crawl_step e)\<^sup>*\<^sup>* s s' \<and>
      (to_visit_urls s' = {||} \<or> max_pages s' \<le> int (fcard (visited_urls s'))))"
proof (intro conjI)
  show "wf {(s', s). crawl_step e s s'}" by (rule wf_crawl_step)
  show "(\<nexists>s'. crawl_step e s s') =
      (to_visit_urls s = {||} \<or> max_pages s \<le> int (fcard (visited_urls s)))"
    unfolding step_iff_cond by (auto simp: loop_cond_def)
  show "\<exists>s'. (crawl_step e)\<^sup>*\<^sup>* s s' \<and>
      (to_visit_urls s' = {||} \<or> max_pages s' \<le> int (fcard (visited_urls s')))"
    using reaches_terminal [of e s] by (auto simp: loop_cond_def)
qed

text \<open>
  Claim C7. At the head of every iteration of a crawl the frontier and the visited set are
  disjoint, and so they are inside the iteration: after the pop, after the page is marked
  visited, and after any number of links has been offered. Offering a URL that is in the
  visited set or in the frontier changes nothing, and a URL the link loop adds is not in
  the visited set.
\<close>

theorem frontier_visited_disjoint:
  assumes "crawl_from e d dp mp us = Some s"
  shows "to_visit_urls s |\<inter>| visited_urls s = {||} \<and>
         (to_visit_urls s |-| {|u|}) |\<inter>| visited_urls s = {||} \<and>
         (to_visit_urls s |-| {|u|}) |\<inter>| finsert u (visited_urls s) = {||} \<and>
         (to_visit_urls t |\<inter>| visited_urls t = {||} \<longrightarrow>
            to_visit_urls (add_links e c hrefs t) |\<inter>| visited_urls (add_links e c hrefs t) = {||}) \<and>
         (urljoin e c h = Some v \<and> (v |\<in>| visited_urls t \<or> v |\<in>| to_visit_urls t) \<longrightarrow>
            add_links e c [h] t = t) \<and>
         (w |\<in>| to_visit_urls (add_links e c hrefs t) \<and> w |\<notin>| to_visit_urls t \<longrightarrow>
            w |\<notin>| visited_urls t)"
proof -
  have d: "to_visit_urls s |\<inter>| visited_urls s = {||}"
    using assms by (rule crawl_from_disjoint)
  have p: "(to_visit_urls s |-| {|u|}) |\<inter>| visited_urls s = {||}"
    using d by auto
  have a: "(to_visit_urls s |-| {|u|}) |\<inter>| finsert u (visited_urls s) = {||}"
    using d by auto
  have l: "to_visit_urls t |\<inter>| visited_urls t = {||} \<longrightarrow>
      to_visit_urls (add_links e c hrefs t) |\<inter>| visited_urls (add_links e c hrefs t) = {||}"
    using add_links_disjoint by blast
  have i: "urljoin e c h = Some v \<and> (v |\<in>| visited_urls t \<or> v |\<in>| to_visit_urls t) \<longrightarrow>
      add_links e c [h] t = t"
    by auto
  have n: "w |\<in>| to_visit_urls (add_links e c hrefs t) \<and> w |\<notin>| to_visit_urls t \<longrightarrow>
      w |\<notin>| visited_urls t"
    by (auto simp: add_links_mem)
  from d p a l i n show ?thesis by blast
qed

theorem frontier_visited_disjoint_witness:
  "\<exists>s. crawl_from site1 ''example.com'' 3 50 [''http://example.com''] = Some s \<and>
       to_visit_urls s = {|''http://example.com/a'', ''http://example.com/b'',
                           ''http://example.com/feed''|} \<and>
       visited_urls s = {|''http://example.com''|} \<and>
       to_visit_urls s |\<inter>| visited_urls s = {||}"
proof -
  have a: "map_option to_visit_urls (crawl_from site1 ''example.com'' 3 50 [''http://example.com''])
      = Some {|''http://example.com/a'', ''http://example.com/b'', ''http://example.com/feed''|}"
    by code_simp
  have b: "map_option visited_urls (crawl_from site1 ''example.com'' 3 50 [''http://example.com''])
      = Some {|''http://example.com''|}"
    by code_simp
  from a obtain s where s: "crawl_from site1 ''example.com'' 3 50 [''http://example.com''] = Some s"
    by auto
  from frontier_visited_disjoint [OF s]
  have "to_visit_urls s |\<inter>| visited_urls s = {||}"
    by blast
  with a b s show ?thesis
    by auto
qed

text \<open>
  Claim C4, as the code has it. The cap is on the visited set, which holds the pages that
  were fetched as HTML and analysed: in every crawl its size stays within \<open>max_pages\<close>, it
  holds only URLs that were fetched, and it bounds the number of records. The loop goes on
  exactly while the frontier is not empty and the visited set is smaller than \<open>max_pages\<close>.
  Fetches that fail or return no HTML are not counted.
\<close>

theorem visited_within_cap:
  assumes "crawl_from e d dp mp us = Some s"
  shows "int (fcard (visited_urls s)) \<le> max 0 mp \<and> max_pages s = mp \<and>
         visited_urls s |\<subseteq>| fset_of_list (fetched s) \<and>
         length (seo_results s) \<le> fcard (visited_urls s) \<and>
         (\<exists>s'. crawl_step e s s') =
           (to_visit_urls s \<noteq> {||} \<and> int (fcard (visited_urls s)) < mp)"
proof -
  from assms obtain s0 where i: "init e d dp mp = Some s0" and r: "run e us s0 = Some s"
    by (auto simp: crawl_from_def split: option.splits)
  from i have z: "visited_urls s0 = {||}" "fetched s0 = []" "seo_results s0 = []" "max_pages s0 = mp"
    by (auto simp: init_def Let_def split: option.splits)
  have m: "max_pages s = mp"
    using run_frame [OF r] z by simp
  have "int (fcard (visited_urls s)) \<le> max 0 (max_pages s0) \<and>
        visited_urls s |\<subseteq>| fset_of_list (fetched s) \<and>
        length (seo_results s) \<le> fcard (visited_urls s)"
    using r by (rule run_cap) (simp_all add: z fcard_fempty)
  moreover have "(\<exists>s'. crawl_step e s s') =
      (to_visit_urls s \<noteq> {||} \<and> int (fcard (visited_urls s)) < mp)"
    unfolding step_iff_cond by (simp add: loop_cond_def m)
  ultimately show ?thesis
    using m z by simp
qed

theorem visited_within_cap_witness:
  "\<exists>s. crawl_from site2 ''example.com'' 3 10 pops2 = Some s \<and>
       visited_urls s = {|''http://example.com''|} \<and>
       int (fcard (visited_urls s)) \<le> max 0 10 \<and> max_pages s = 10"
proof -
  have a: "map_option visited_urls (crawl_from site2 ''example.com'' 3 10 pops2)
      = Some {|''http://example.com''|}"
    by code_simp
  then obtain s where s: "crawl_from site2 ''example.com'' 3 10 pops2 = Some s"
    by auto
  from visited_within_cap [OF s]
  have "int (fcard (visited_urls s)) \<le> max 0 10 \<and> max_pages s = 10"
    by blast
  with a s show ?thesis
    by auto
qed

text \<open>
  The claim as the specification states it fails: with \<open>max_pages = 10\<close>, the crawl of a
  home page that links to eleven failing URLs performs a fetch on twelve distinct URLs.
\<close>

theorem fetches_exceed_cap_counterexample:
  "map_option max_pages (crawl_from site2 ''example.com'' 3 10 pops2) = Some 10 \<and>
   map_option fetched (crawl_from site2 ''example.com'' 3 10 pops2) = Some pops2 \<and>
   map_option fetch_count (crawl_from site2 ''example.com'' 3 10 pops2) = Some 12"
  by code_simp

text \<open>
  Claim C3, as the code has it. A failed fetch is not retried: the iteration performs the
  one fetch, removes the URL from the frontier and records it nowhere, so the visited set
  and the output stay as they were. A URL that is not in the frontier enters it only as a
  link of a page that was fetched as HTML; since the failed URL is not in the visited set,
  such a link puts it back and it is fetched again.
\<close>

theorem failed_fetch_dropped:
  assumes "session_get e u = RequestException" and "u |\<notin>| visited_urls s"
  shows "loop_body e u s =
           s\<lparr>to_visit_urls := to_visit_urls s |-| {|u|}, fetched := fetched s @ [u]\<rparr> \<and>
         u |\<notin>| to_visit_urls (loop_body e u s) \<and> u |\<notin>| visited_urls (loop_body e u s) \<and>
         (v |\<in>| to_visit_urls (loop_body e w t) \<and> v |\<notin>| to_visit_urls t \<longrightarrow>
            (\<exists>ct body. session_get e w = Response ct body \<and> is_html ct \<and>
               v \<in> set (resolved_links e w (a_hrefs (BeautifulSoup e body)))))"
proof -
  have b: "loop_body e u s =
      s\<lparr>to_visit_urls := to_visit_urls s |-| {|u|}, fetched := fetched s @ [u]\<rparr>"
    using assms by (simp add: loop_body_def)
  have f: "v |\<in>| to_visit_urls (loop_body e w t) \<and> v |\<notin>| to_visit_urls t \<longrightarrow>
      (\<exists>ct body. session_get e w = Response ct body \<and> is_html ct \<and>
         v \<in> set (resolved_links e w (a_hrefs (BeautifulSoup e body))))"
    using loop_body_frontier [of v e w t] by blast
  show ?thesis
    unfolding b using assms(2) f by simp
qed

theorem failed_fetch_dropped_witness:
  "\<exists>s. crawl_from site1 ''example.com'' 3 50 [''http://example.com''] = Some s \<and>
       session_get site1 ''http://example.com/a'' = RequestException \<and>
       ''http://example.com/a'' |\<in>| to_visit_urls s \<and>
       ''http://example.com/a'' |\<notin>| visited_urls s \<and>
       loop_body site1 ''http://example.com/a'' s =
         s\<lparr>to_visit_urls := to_visit_urls s |-| {|''http://example.com/a''|},
           fetched := fetched s @ [''http://example.com/a'']\<rparr>"
proof -
  have a: "map_option (\<lambda>s. ''http://example.com/a'' |\<in>| to_visit_urls s)
      (crawl_from site1 ''example.com'' 3 50 [''http://example.com'']) = Some True"
    by code_simp
  have b: "map_option (\<lambda>s. ''http://example.com/a'' |\<in>| visited_urls s)
      (crawl_from site1 ''example.com'' 3 50 [''http://example.com'']) = Some False"
    by code_simp
  have g: "session_get site1 ''http://example.com/a'' = RequestException"
    by code_simp
  from a obtain s where s: "crawl_from site1 ''example.com'' 3 50 [''http://example.com''] = Some s"
    by auto
  have m: "''http://example.com/a'' |\<in>| to_visit_urls s" "''http://example.com/a'' |\<notin>| visited_urls s"
    using a b s by simp_all
  from failed_fetch_dropped [OF g m(2)] s g m show ?thesis
    by blast
qed

text \<open>
  The claim as the specification states it fails: the fetch of \<open>/a\<close> fails, then \<open>/b\<close>
  links to \<open>/a\<close> again, and \<open>/a\<close> is fetched a second time in the same run.
\<close>

theorem refetch_after_failure_counterexample:
  "session_get site1 ''http://example.com/a'' = RequestException \<and>
   map_option fetched (crawl_from site1 ''example.com'' 3 50
     [''http://example.com'', ''http://example.com/a'', ''http://example.com/b'',
      ''http://example.com/a''])
   = Some [''http://example.com'', ''http://example.com/a'', ''http://example.com/b'',
           ''http://example.com/a'']"
  by code_simp

text \<open>
  Claim C10. An iteration whose response is not HTML performs the fetch and removes the URL
  from the frontier, and changes nothing else: the visited set, its size and the output are
  as before, and the URL is not in the visited set. So when a later page links to it, the
  link loop puts it into the frontier again.
\<close>

theorem non_html_skipped:
  assumes "session_get e u = Response ct body" and "\<not> is_html ct" and "u |\<notin>| visited_urls s"
  shows "loop_body e u s =
           s\<lparr>to_visit_urls := to_visit_urls s |-| {|u|}, fetched := fetched s @ [u]\<rparr> \<and>
         to_visit_urls (loop_body e u s) = to_visit_urls s |-| {|u|} \<and>
         visited_urls (loop_body e u s) = visited_urls s \<and>
         fcard (visited_urls (loop_body e u s)) = fcard (visited_urls s) \<and>
         seo_results (loop_body e u s) = seo_results s \<and>
         u |\<notin>| visited_urls (loop_body e u s) \<and>
         (base_domain t = base_domain s \<and> u |\<notin>| visited_urls t \<and> urljoin e c h = Some u \<and>
          is_valid_url e s u \<longrightarrow> u |\<in>| to_visit_urls (add_links e c [h] t))"
proof -
  have b: "loop_body e u s =
      s\<lparr>to_visit_urls := to_visit_urls s |-| {|u|}, fetched := fetched s @ [u]\<rparr>"
    using assms by (simp add: loop_body_def)
  have r: "base_domain t = base_domain s \<and> u |\<notin>| visited_urls t \<and> urljoin e c h = Some u \<and>
      is_valid_url e s u \<longrightarrow> u |\<in>| to_visit_urls (add_links e c [h] t)"
  proof (intro impI, elim conjE)
    assume h: "base_domain t = base_domain s" "u |\<notin>| visited_urls t" "urljoin e c h = Some u"
      "is_valid_url e s u"
    have "is_valid_url e t u"
      using h(4) by (simp add: is_valid_url_base [OF h(1)])
    with h(2,3) show "u |\<in>| to_visit_urls (add_links e c [h] t)"
      by (simp add: add_links_mem)
  qed
  have c: "to_visit_urls (loop_body e u s) = to_visit_urls s |-| {|u|}"
    "visited_urls (loop_body e u s) = visited_urls s"
    "seo_results (loop_body e u s) = seo_results s"
    unfolding b by simp_all
  have d: "fcard (visited_urls (loop_body e u s)) = fcard (visited_urls s)"
    "u |\<notin>| visited_urls (loop_body e u s)"
    unfolding c using assms(3) by simp_all
  show ?thesis
    by (intro conjI) (rule b c d r)+
qed


theorem non_html_skipped_witness:
  "\<exists>s. crawl_from site1 ''example.com'' 3 50 [''http://example.com''] = Some s \<and>
       session_get site1 ''http://example.com/feed'' =
         Response (Some ''application/rss+xml'') ''feed'' \<and>
       \<not> is_html (Some ''application/rss+xml'') \<and>
       ''http://example.com/feed'' |\<notin>| visited_urls s \<and>
       visited_urls (loop_body site1 ''http://example.com/feed'' s) = visited_urls s \<and>
       seo_results (loop_body site1 ''http://example.com/feed'' s) = seo_results s \<and>
       map_option fetched (crawl_from site1 ''example.com'' 3 50
         [''http://example.com'', ''http://example.com/feed'', ''http://example.com/b'',
          ''http://example.com/feed''])
       = Some [''http://example.com'', ''http://example.com/feed'', ''http://example.com/b'',
               ''http://example.com/feed'']"
proof -
  have b: "map_option (\<lambda>s. ''http://example.com/feed'' |\<in>| visited_urls s)
      (crawl_from site1 ''example.com'' 3 50 [''http://example.com'']) = Some False"
    by code_simp
  have g: "session_get site1 ''http://example.com/feed'' =
      Response (Some ''application/rss+xml'') ''feed''"
    by code_simp
  have h: "\<not> is_html (Some ''application/rss+xml'')"
    by code_simp
  have f: "map_option fetched (crawl_from site1 ''example.com'' 3 50
         [''http://example.com'', ''http://example.com/feed'', ''http://example.com/b'',
          ''http://example.com/feed''])
       = Some [''http://example.com'', ''http://example.com/feed'', ''http://example.com/b'',
               ''http://example.com/feed'']"
    by code_simp
  from b obtain s where s: "crawl_from site1 ''example.com'' 3 50 [''http://example.com''] = Some s"
    by auto
  have m: "''http://example.com/feed'' |\<notin>| visited_urls s"
    using b s by simp
  from non_html_skipped [OF g h m] s g h m f show ?thesis
    by blast
qed

text \<open>
  Claim C8. When a page is fetched as HTML and analysed without an exception, its record is
  appended to the output, and the record holds the URL. A category key is in the record
  exactly when the category produced an issue, with the issues produced as its value, and
  the record has no other key. When no category produced an issue, the record holds the URL
  alone and is appended all the same. The URL of the page is taken to be non-empty, as a
  fetch of the empty URL gives no response.
\<close>

theorem record_appended_and_sparse:
  assumes "u \<noteq> []" and "u |\<notin>| visited_urls s"
    and "session_get e u = Response ct body" and "is_html ct"
    and "sp = BeautifulSoup e body"
    and "external_links (urlparse e) (base_domain s) (a_hrefs sp) = Some ext"
  shows "\<exists>r. get_page_seo_issues (urlparse e) (base_domain s) u sp = Some r \<and>
           seo_results (loop_body e u s) = seo_results s @ [r] \<and>
           map_of r ''URL'' = Some (Str u) \<and>
           map_of r ''Title Issues'' =
             (if title_issues sp = [] then None else Some (StrList (title_issues sp))) \<and>
           map_of r ''Meta Description Issues'' =
             (if meta_description_issues sp = [] then None
              else Some (StrList (meta_description_issues sp))) \<and>
           map_of r ''Heading Structure Issues'' =
             (if heading_structure_issues sp = [] then None
              else Some (StrList (heading_structure_issues sp))) \<and>
           map_of r ''Link Issues'' =
             (if link_issues ext = [] then None else Some (StrList (link_issues ext))) \<and>
           map_of r ''Image SEO Issues'' =
             (if image_issues sp = [] then None else Some (StrList (image_issues sp))) \<and>
           set (map fst r) \<subseteq> {''URL'', ''Title Issues'', ''Meta Description Issues'',
                               ''Heading Structure Issues'', ''Link Issues'', ''Image SEO Issues''} \<and>
           (title_issues sp = [] \<and> meta_description_issues sp = [] \<and>
            heading_structure_issues sp = [] \<and> link_issues ext = [] \<and> image_issues sp = []
            \<longrightarrow> r = [(''URL'', Str u)])"
proof -
  define r where "r = filter (\<lambda>kv. truthy (snd kv))
       [(''URL'', Str u),
        (''Title Issues'', StrList (title_issues sp)),
        (''Meta Description Issues'', StrList (meta_description_issues sp)),
        (''Heading Structure Issues'', StrList (heading_structure_issues sp)),
        (''Link Issues'', StrList (link_issues ext)),
        (''Image SEO Issues'', StrList (image_issues sp))]"
  have g: "get_page_seo_issues (urlparse e) (base_domain s) u sp = Some r"
    using assms(6) by (simp add: get_page_seo_issues_def r_def)
  have ne: "r \<noteq> []"
    using assms(1) by (simp add: r_def)
  have app: "seo_results (loop_body e u s) = seo_results s @ [r]"
    using assms(2,3,4) g ne unfolding assms(5)
    by (simp add: loop_body_def Let_def add_links_frame)
  have m: "\<And>k. map_of r k =
    (case map_of
       [(''URL'', Str u),
        (''Title Issues'', StrList (title_issues sp)),
        (''Meta Description Issues'', StrList (meta_description_issues sp)),
        (''Heading Structure Issues'', StrList (heading_structure_issues sp)),
        (''Link Issues'', StrList (link_issues ext)),
        (''Image SEO Issues'', StrList (image_issues sp))] k of
       None \<Rightarrow> None | Some v \<Rightarrow> if truthy v then Some v else None)"
    using g assms(6) by (rule get_page_map_of)
  have k0: "map_of r ''URL'' = Some (Str u)"
    unfolding m using assms(1) by simp
  have k1: "map_of r ''Title Issues'' =
      (if title_issues sp = [] then None else Some (StrList (title_issues sp)))"
    unfolding m by simp
  have k2: "map_of r ''Meta Description Issues'' =
      (if meta_description_issues sp = [] then None
       else Some (StrList (meta_description_issues sp)))"
    unfolding m by simp
  have k3: "map_of r ''Heading Structure Issues'' =
      (if heading_structure_issues sp = [] then None
       else Some (StrList (heading_structure_issues sp)))"
    unfolding m by simp
  have k4: "map_of r ''Link Issues'' =
      (if link_issues ext = [] then None else Some (StrList (link_issues ext)))"
    unfolding m by simp
  have k5: "map_of r ''Image SEO Issues'' =
      (if image_issues sp = [] then None else Some (StrList (image_issues sp)))"
    unfolding m by simp
  have keys: "set (map fst r) \<subseteq> {''URL'', ''Title Issues'', ''Meta Description Issues'',
      ''Heading Structure Issues'', ''Link Issues'', ''Image SEO Issues''}"
  proof -
    have "set (map fst r) \<subseteq> set (map fst
       [(''URL'', Str u),
        (''Title Issues'', StrList (title_issues sp)),
        (''Meta Description Issues'', StrList (meta_description_issues sp)),
        (''Heading Structure Issues'', StrList (heading_structure_issues sp)),
        (''Link Issues'', StrList (link_issues ext)),
        (''Image SEO Issues'', StrList (image_issues sp))])"
      unfolding r_def set_map by (intro image_mono filter_is_subset)
    then show ?thesis by simp
  qed
  have only: "title_issues sp = [] \<and> meta_description_issues sp = [] \<and>
      heading_structure_issues sp = [] \<and> link_issues ext = [] \<and> image_issues sp = []
      \<longrightarrow> r = [(''URL'', Str u)]"
    using assms(1) by (simp add: r_def)
  show ?thesis
    by (intro exI [of _ r] conjI) (rule g app k0 k1 k2 k3 k4 k5 keys only)+
qed

theorem record_appended_and_sparse_witness:
  "''http://example.com'' \<noteq> [] \<and> ''http://example.com'' |\<notin>| visited_urls crawler1 \<and>
   session_get site3 ''http://example.com'' = Response (Some ''text/html'') ''clean'' \<and>
   is_html (Some ''text/html'') \<and> clean_soup = BeautifulSoup site3 ''clean'' \<and>
   external_links (urlparse site3) (base_domain crawler1) (a_hrefs clean_soup) = Some [] \<and>
   title_issues clean_soup = [] \<and> meta_description_issues clean_soup = [] \<and>
   heading_structure_issues clean_soup = [] \<and> link_issues [] = [] \<and>
   image_issues clean_soup = [] \<and>
   seo_results (loop_body site3 ''http://example.com'' crawler1) =
     seo_results crawler1 @ [[(''URL'', Str ''http://example.com'')]]"
proof -
  have a: "''http://example.com'' \<noteq> []"
    by simp
  have b: "''http://example.com'' |\<notin>| visited_urls crawler1"
    by (simp add: crawler1_def)
  have c: "session_get site3 ''http://example.com'' = Response (Some ''text/html'') ''clean''"
    by (simp add: site3_def std_env_def)
  have d: "is_html (Some ''text/html'')"
    by code_simp
  have p: "clean_soup = BeautifulSoup site3 ''clean''"
    by (simp add: site3_def std_env_def)
  have x: "external_links (urlparse site3) (base_domain crawler1) (a_hrefs clean_soup) = Some []"
    by (simp add: clean_soup_def)
  have n: "title_issues clean_soup = []" "meta_description_issues clean_soup = []"
    "heading_structure_issues clean_soup = []" "link_issues [] = []" "image_issues clean_soup = []"
    by code_simp+
  from record_appended_and_sparse [OF a b c d p x]
  obtain r where r: "seo_results (loop_body site3 ''http://example.com'' crawler1) =
        seo_results crawler1 @ [r]"
    and o: "title_issues clean_soup = [] \<and> meta_description_issues clean_soup = [] \<and>
        heading_structure_issues clean_soup = [] \<and> link_issues [] = [] \<and>
        image_issues clean_soup = [] \<longrightarrow> r = [(''URL'', Str ''http://example.com'')]"
    by blast
  from o n have "r = [(''URL'', Str ''http://example.com'')]"
    by (simp only: simp_thms)
  with r have e: "seo_results (loop_body site3 ''http://example.com'' crawler1) =
     seo_results crawler1 @ [[(''URL'', Str ''http://example.com'')]]"
    by (simp only:)
  show ?thesis
    by (intro conjI) (rule a b c d p x n e)+
qed




text \<open>
  Claim C2 at a page of \<open>example.com\<close> with eleven anchors, all relative: every anchor
  resolves to the host of the page, so the specification counts no external link, and the
  analyser reports eleven.
\<close>

theorem relative_links_counted_external:
  "map (resolved_host site2 ''http://example.com'') links11 = replicate 11 (Some ''example.com'') \<and>
   external_links urlparse_std ''example.com'' links11 = Some links11 \<and>
   map_option (\<lambda>r. issues_of r ''Link Issues'')
     (get_page_seo_issues urlparse_std ''example.com'' ''http://example.com'' (page ''Home'' links11))
   = Some [''High Number of External Links (11)'']"
  by code_simp

end
